theory Spec2Isabelle
  imports Complex_Main "HOL-Library.Sublist"
begin

section \<open>The honor ledger of HonorBot (src/bot.py)\<close>

text \<open>
  The bot keeps four SQLite tables behind the class \<open>HonorRepository\<close>. The embedding
  carries them as one record that every repository method takes and returns:
  \<^item> \<open>user_honor(user_id PRIMARY KEY, honor)\<close> is a map from user id to balance;
  \<^item> \<open>honor_log\<close> and \<open>loot_log\<close> are lists in insertion order (the position of a
    row stands for its AUTOINCREMENT id);
  \<^item> \<open>daily_bonus(user_id PRIMARY KEY, last_claimed)\<close> is a map from user id to a day.

  Python integers are unbounded, so ids, balances and deltas are of type \<open>int\<close>; every
  call site of the bot binds Discord ids and small constants, which fit SQLite's INTEGER.
\<close>

subsection \<open>Clock\<close>

text \<open>
  The source reads the time in three ways. The column default \<open>CURRENT_TIMESTAMP\<close> of
  SQLite is the UTC time, as text with a resolution of one second;
  \<open>datetime.datetime.now()\<close> is the naive local time of the process with microseconds;
  \<open>datetime.date.today()\<close> is the local calendar date. A clock reading is the instant
  in microseconds since the epoch (UTC) together with the local offset from UTC in
  seconds that is in force at that instant.
\<close>

record clock =
  utc_us :: int
  tz_offset :: int

definition current_timestamp :: "clock \<Rightarrow> int" where
  \<comment> \<open>SQLite \<open>CURRENT_TIMESTAMP\<close>: whole seconds, UTC.\<close>
  "current_timestamp c = utc_us c div 1000000"

definition datetime_now :: "clock \<Rightarrow> int" where
  \<comment> \<open>\<open>datetime.datetime.now()\<close>: naive local time, in microseconds.\<close>
  "datetime_now c = utc_us c + tz_offset c * 1000000"

definition fromisoformat :: "int \<Rightarrow> int" where
  \<comment> \<open>\<open>datetime.datetime.fromisoformat\<close> of a stored timestamp: the naive datetime with
      the stored fields, in microseconds.\<close>
  "fromisoformat s = s * 1000000"

definition date_today :: "clock \<Rightarrow> int" where
  \<comment> \<open>\<open>datetime.date.today()\<close>: the local day, counted from the epoch.\<close>
  "date_today c = (utc_us c div 1000000 + tz_offset c) div 86400"

subsection \<open>Tables\<close>

record log_row =
  user_id :: int
  delta :: int
  reason :: string
  by_user :: "int option"
  ts :: int

record loot_row =
  loot_user_id :: int
  loot_ts :: int
  reward :: int

record repository =
  user_honor :: "int \<rightharpoonup> int"
  honor_log :: "log_row list"
  daily_bonus :: "int \<rightharpoonup> int"
  loot_log :: "loot_row list"

definition init_db :: repository where
  "init_db = \<lparr>user_honor = Map.empty, honor_log = [], daily_bonus = Map.empty, loot_log = []\<rparr>"

definition HONOR_MIN :: int where
  "HONOR_MIN = - 144000"

definition HONOR_MAX :: int where
  "HONOR_MAX = 144000"

definition BLESS_AMOUNT :: int where
  "BLESS_AMOUNT = 100000"

subsection \<open>Balance and ledger\<close>

definition get_user_honor :: "repository \<Rightarrow> int \<Rightarrow> int" where
  "get_user_honor db uid = (case user_honor db uid of None \<Rightarrow> 0 | Some honor \<Rightarrow> honor)"

definition set_user_honor :: "int \<Rightarrow> int \<Rightarrow> repository \<Rightarrow> repository" where
  "set_user_honor uid v db =
     (let clamped = max HONOR_MIN (min HONOR_MAX v)
      in db\<lparr>user_honor := (user_honor db)(uid \<mapsto> clamped)\<rparr>)"

definition log_honor_change ::
  "clock \<Rightarrow> int \<Rightarrow> int \<Rightarrow> string \<Rightarrow> int option \<Rightarrow> repository \<Rightarrow> repository" where
  "log_honor_change now uid d rsn by db =
     db\<lparr>honor_log := honor_log db @
        [\<lparr>user_id = uid, delta = d, reason = rsn, by_user = by, ts = current_timestamp now\<rparr>]\<rparr>"

definition add_user_honor ::
  "clock \<Rightarrow> int \<Rightarrow> int \<Rightarrow> string \<Rightarrow> int option \<Rightarrow> repository \<Rightarrow> repository" where
  "add_user_honor now uid d rsn by db =
     (let current = get_user_honor db uid;
          db1 = set_user_honor uid (current + d) db
      in log_honor_change now uid d rsn by db1)"

subsection \<open>Daily bonus and lootbox windows\<close>

definition can_claim_daily :: "clock \<Rightarrow> repository \<Rightarrow> int \<Rightarrow> bool" where
  "can_claim_daily now db uid =
     (case daily_bonus db uid of None \<Rightarrow> True | Some last_claimed \<Rightarrow> last_claimed \<noteq> date_today now)"

definition claim_daily :: "clock \<Rightarrow> int \<Rightarrow> repository \<Rightarrow> repository" where
  "claim_daily now uid db = db\<lparr>daily_bonus := (daily_bonus db)(uid \<mapsto> date_today now)\<rparr>"

definition total_seconds :: "int \<Rightarrow> rat" where
  \<comment> \<open>\<open>timedelta.total_seconds()\<close> of a difference given in microseconds.\<close>
  "total_seconds us = of_int us / 1000000"

definition can_open_lootbox :: "clock \<Rightarrow> repository \<Rightarrow> int \<Rightarrow> bool" where
  \<comment> \<open>\<open>SELECT ts FROM loot_log WHERE user_id = ? ORDER BY ts DESC LIMIT 1\<close>, then the
      comparison of \<open>now() - last\<close> with 86400 seconds.\<close>
  "can_open_lootbox now db uid =
     (case sort_key (\<lambda>t. - t) (map loot_ts (filter (\<lambda>r. loot_user_id r = uid) (loot_log db))) of
        [] \<Rightarrow> True
      | row # _ \<Rightarrow> 86400 \<le> total_seconds (datetime_now now - fromisoformat row))"

definition log_lootbox :: "clock \<Rightarrow> int \<Rightarrow> int \<Rightarrow> repository \<Rightarrow> repository" where
  "log_lootbox now uid rew db =
     db\<lparr>loot_log := loot_log db @
        [\<lparr>loot_user_id = uid, loot_ts = current_timestamp now, reward = rew\<rparr>]\<rparr>"

subsection \<open>Counting reasons\<close>

text \<open>
  \<open>get_achievement_count\<close> selects with \<open>reason LIKE '%' || reason || '%'\<close>. The LIKE
  operator of SQLite, with no ESCAPE clause and the default settings the bot runs with,
  reads \<open>%\<close> in the pattern as any run of characters and \<open>_\<close> as any one character,
  and compares every other character after folding the letters A to Z to lower case.
  A string is a list of characters, one element for each character of the text.
\<close>

definition lower_ascii :: "char \<Rightarrow> char" where
  "lower_ascii c =
     (let n = (of_char c :: nat) in if 65 \<le> n \<and> n \<le> 90 then char_of (n + 32) else c)"

definition lower :: "string \<Rightarrow> string" where
  "lower s = map lower_ascii s"

fun sql_like :: "string \<Rightarrow> string \<Rightarrow> bool" where
  "sql_like [] [] = True"
| "sql_like [] (c # cs) = False"
| "sql_like (p # ps) [] = (p = CHR ''%'' \<and> sql_like ps [])"
| "sql_like (p # ps) (c # cs) =
     (if p = CHR ''%'' then sql_like ps (c # cs) \<or> sql_like (p # ps) cs
      else (p = CHR ''_'' \<or> lower_ascii p = lower_ascii c) \<and> sql_like ps cs)"

definition get_achievement_count :: "repository \<Rightarrow> int \<Rightarrow> string \<Rightarrow> nat" where
  "get_achievement_count db uid rsn =
     length (filter (\<lambda>r. user_id r = uid \<and> sql_like (''%'' @ rsn @ ''%'') (reason r))
       (honor_log db))"

subsection \<open>Store failures\<close>

text \<open>
  Every repository method opens a connection of its own and commits before it returns;
  \<open>add_user_honor\<close> calls three of them in a row and catches nothing. A method whose
  statement fails raises the error of the store and leaves its table as it was. The
  three flags say which of the three calls fails; the result is the error raised, if
  any, and the database that is left behind.
\<close>

datatype store_error = StoreUnavailable

definition get_user_honor_io :: "bool \<Rightarrow> repository \<Rightarrow> int \<Rightarrow> store_error + int" where
  "get_user_honor_io fails db uid = (if fails then Inl StoreUnavailable else Inr (get_user_honor db uid))"

definition set_user_honor_io :: "bool \<Rightarrow> int \<Rightarrow> int \<Rightarrow> repository \<Rightarrow> store_error + repository" where
  "set_user_honor_io fails uid v db =
     (if fails then Inl StoreUnavailable else Inr (set_user_honor uid v db))"

definition log_honor_change_io ::
  "bool \<Rightarrow> clock \<Rightarrow> int \<Rightarrow> int \<Rightarrow> string \<Rightarrow> int option \<Rightarrow> repository \<Rightarrow> store_error + repository" where
  "log_honor_change_io fails now uid d rsn by db =
     (if fails then Inl StoreUnavailable else Inr (log_honor_change now uid d rsn by db))"

definition add_user_honor_io ::
  "bool \<times> bool \<times> bool \<Rightarrow> clock \<Rightarrow> int \<Rightarrow> int \<Rightarrow> string \<Rightarrow> int option \<Rightarrow> repository
     \<Rightarrow> store_error option \<times> repository" where
  "add_user_honor_io faults now uid d rsn by db =
     (case faults of (read_fails, write_fails, log_fails) \<Rightarrow>
        (case get_user_honor_io read_fails db uid of
           Inl e \<Rightarrow> (Some e, db)
         | Inr current \<Rightarrow>
             (case set_user_honor_io write_fails uid (current + d) db of
                Inl e \<Rightarrow> (Some e, db)
              | Inr db1 \<Rightarrow>
                  (case log_honor_change_io log_fails now uid d rsn by db1 of
                     Inl e \<Rightarrow> (Some e, db1)
                   | Inr db2 \<Rightarrow> (None, db2)))))"

subsection \<open>Events that change the ledger\<close>

text \<open>
  The handlers of the bot that write to the repository, with what they draw from outside
  as arguments: whether the member is a bot account, the word \<open>is_insult\<close> returned for
  a message, the bonus drawn by \<open>random.randint(100, 500)\<close> and the reward drawn by
  \<open>random.choices\<close>. The two repository writers are events as well, so that a run may
  call them with any value.
\<close>

datatype event =
    OnMessage int bool "string option"
  | Bless int bool
  | Thanks int bool
  | Helped int bool
  | Daily int int
  | Lootbox int int
  | SetUserHonor int int
  | AddUserHonor int int string "int option"

fun handle :: "clock \<Rightarrow> event \<Rightarrow> repository \<Rightarrow> repository" where
  "handle now (OnMessage author is_bot insult) db =
     (if is_bot then db
      else (case insult of
              None \<Rightarrow> db
            | Some w \<Rightarrow>
                if w = [] then db
                else add_user_honor now author (- 100000) (''Beleidigung: '' @ w) (Some author) db))"
| "handle now (Bless user is_bot) db =
     (if is_bot then db else add_user_honor now user BLESS_AMOUNT [] None db)"
| "handle now (Thanks user is_bot) db =
     (if is_bot then db else add_user_honor now user 20 [] None db)"
| "handle now (Helped user is_bot) db =
     (if is_bot then db else add_user_honor now user 30 [] None db)"
| "handle now (Daily user bonus) db =
     (if \<not> can_claim_daily now db user then db
      else claim_daily now user (add_user_honor now user bonus ''Daily Bonus'' (Some user) db))"
| "handle now (Lootbox user rew) db =
     (if \<not> can_open_lootbox now db user then db
      else log_lootbox now user rew (add_user_honor now user rew ''Lootbox'' (Some user) db))"
| "handle now (SetUserHonor user v) db = set_user_honor user v db"
| "handle now (AddUserHonor user d rsn by) db = add_user_honor now user d rsn by db"

fun run :: "(clock \<times> event) list \<Rightarrow> repository \<Rightarrow> repository" where
  "run [] db = db"
| "run ((now, ev) # rest) db = run rest (handle now ev db)"

definition balances_in_range :: "repository \<Rightarrow> bool" where
  "balances_in_range db =
     (\<forall>uid honor. user_honor db uid = Some honor \<longrightarrow> HONOR_MIN \<le> honor \<and> honor \<le> HONOR_MAX)"

section \<open>Ranks\<close>

text \<open>
  The table \<open>RANKS\<close> comes from the module \<open>roles\<close>; the functions take it as an
  argument. A tier is the tuple (threshold, name, emoji, colour) that the code unpacks.
  \<open>sorted(RANKS, key=lambda x: x[0])\<close> is a stable sort, which \<open>sort_key\<close> is;
  with \<open>reverse=True\<close> the order of the keys is reversed and tiers of equal threshold
  keep their order, which is the stable sort by the negated threshold. The table is
  described as not empty and sorted by ascending threshold; the theorems that need this
  say so in their hypotheses.
\<close>

type_synonym rank = "int \<times> string \<times> string \<times> nat"

datatype py_error = IndexError | ZeroDivisionError

fun first_reached :: "rank list \<Rightarrow> int \<Rightarrow> (string \<times> string \<times> nat) option" where
  "first_reached [] honor = None"
| "first_reached ((threshold, name, emoji, color) # rest) honor =
     (if honor \<ge> threshold then Some (name, emoji, color) else first_reached rest honor)"

definition get_rank :: "rank list \<Rightarrow> int \<Rightarrow> py_error + (string \<times> string \<times> nat)" where
  "get_rank RANKS honor =
     (case first_reached (sort_key (\<lambda>x. - fst x) RANKS) honor of
        Some found \<Rightarrow> Inr found
      | None \<Rightarrow> (case RANKS of [] \<Rightarrow> Inl IndexError | r0 # _ \<Rightarrow> Inr (snd r0)))"

text \<open>
  \<open>get_progress_bar\<close> returns one formatted string. The embedding returns the values
  the string is made of: the fraction, the number of filled cells of the bar of 16, the
  two numbers printed as \<open>pos/span\<close>, and the tier printed after them. The division
  \<open>pos / span\<close> of two Python integers is modelled by the exact quotient.
\<close>

record progress =
  percent :: rat
  filled :: int
  pos :: int
  span :: int
  next_rank :: rank

fun scan_ranks :: "rank list \<Rightarrow> int \<Rightarrow> rank \<Rightarrow> rank \<Rightarrow> rank \<times> rank" where
  "scan_ranks [] honor prev nxt = (prev, nxt)"
| "scan_ranks (r # rest) honor prev nxt =
     (if honor < fst r then (prev, r) else scan_ranks rest honor r nxt)"

definition truediv :: "int \<Rightarrow> int \<Rightarrow> py_error + rat" where
  "truediv a b = (if b = 0 then Inl ZeroDivisionError else Inr (of_int a / of_int b))"

definition get_progress_bar :: "rank list \<Rightarrow> int \<Rightarrow> py_error + progress" where
  "get_progress_bar RANKS honor =
     (let sorted_ranks = sort_key fst RANKS in
      if sorted_ranks = [] then Inl IndexError
      else
        (case scan_ranks sorted_ranks honor (hd sorted_ranks) (last sorted_ranks) of
           (prev, nxt) \<Rightarrow>
             (let sp = fst nxt - fst prev;
                  ps = honor - fst prev;
                  bar_len = 16
              in (case (if sp = 0 then Inr 0
                        else (case truediv ps sp of
                                Inl e \<Rightarrow> Inl e
                              | Inr q \<Rightarrow> Inr (min (max q 0) 1))) of
                    Inl e \<Rightarrow> Inl e
                  | Inr pc \<Rightarrow>
                      Inr \<lparr>percent = pc, filled = \<lfloor>pc * bar_len\<rfloor>, pos = ps, span = sp,
                           next_rank = nxt\<rparr>))))"

section \<open>Roles\<close>

text \<open>
  A role of the platform, with the fields the code reads. Two role objects are equal in
  Python when their ids are equal, so \<open>role in member.roles\<close> compares ids.
  \<open>discord.utils.get(guild.roles, name=n)\<close> is the first role of that name, or None.
\<close>

record role =
  role_id :: int
  role_name :: string
  is_default :: bool
  administrator :: bool

definition role_in :: "role \<Rightarrow> role list \<Rightarrow> bool" where
  "role_in r rs = (role_id r \<in> set (map role_id rs))"

definition get_role :: "role list \<Rightarrow> string \<Rightarrow> role option" where
  "get_role roles n = find (\<lambda>r. role_name r = n) roles"

definition REWARD_ROLES :: "(int \<times> string) list" where
  "REWARD_ROLES = [(10000, ''VIP''), (50000, ''Elite''), (100000, ''Star'')]"

datatype role_call = AddRoles role | RemoveRoles role

text \<open>
  \<open>check_rewards\<close> issues its calls against the roles the member object holds when it
  is called; the calls of the platform library send requests and do not change that
  list. The result is the list of calls in the order they are made.
\<close>

fun reward_calls :: "(int \<times> string) list \<Rightarrow> int \<Rightarrow> role list \<Rightarrow> role list \<Rightarrow> role_call list" where
  "reward_calls [] honor guild_roles member_roles = []"
| "reward_calls ((threshold, name) # rest) honor guild_roles member_roles =
     (case get_role guild_roles name of
        None \<Rightarrow> []
      | Some r \<Rightarrow>
          if honor \<ge> threshold \<and> \<not> role_in r member_roles then [AddRoles r]
          else if honor < threshold \<and> role_in r member_roles then [RemoveRoles r]
          else [])
     @ reward_calls rest honor guild_roles member_roles"

definition check_rewards :: "int \<Rightarrow> role list \<Rightarrow> role list \<Rightarrow> role_call list" where
  "check_rewards honor guild_roles member_roles =
     reward_calls REWARD_ROLES honor guild_roles member_roles"

text \<open>What the platform does to the roles of the member when a call succeeds.\<close>

fun apply_call :: "role_call \<Rightarrow> role list \<Rightarrow> role list" where
  "apply_call (AddRoles r) rs = (if role_in r rs then rs else rs @ [r])"
| "apply_call (RemoveRoles r) rs = filter (\<lambda>x. role_id x \<noteq> role_id r) rs"

fun apply_calls :: "role_call list \<Rightarrow> role list \<Rightarrow> role list" where
  "apply_calls [] rs = rs"
| "apply_calls (c # cs) rs = apply_calls cs (apply_call c rs)"

text \<open>
  The loop of \<open>update_member_title\<close> that strips roles. It runs over a copy of the
  member's roles and skips a role that is the default role, that has the administrator
  permission, or whose name in lower case contains \<open>mod\<close> or \<open>admin\<close>. For every
  other role it calls \<open>member.remove_roles\<close>; the platform removes the role, or refuses
  with \<open>Forbidden\<close>, which the loop catches and logs, or fails otherwise, which ends the
  function with that error. The result is the list of roles the call was made for and
  the roles the member is left with.
\<close>

datatype outcome = Removed | Forbidden | HTTPException

datatype discord_error = HTTPError

definition skipped :: "role \<Rightarrow> bool" where
  "skipped r =
     (is_default r \<or> administrator r \<or> sublist ''mod'' (lower (role_name r))
        \<or> sublist ''admin'' (lower (role_name r)))"

fun strip_roles ::
  "(role \<Rightarrow> outcome) \<Rightarrow> role list \<Rightarrow> role list \<Rightarrow> role list
     \<Rightarrow> discord_error + (role list \<times> role list)" where
  "strip_roles platform [] calls held = Inr (calls, held)"
| "strip_roles platform (r # rest) calls held =
     (if skipped r then strip_roles platform rest calls held
      else (case platform r of
              Removed \<Rightarrow>
                strip_roles platform rest (calls @ [r]) (filter (\<lambda>x. role_id x \<noteq> role_id r) held)
            | Forbidden \<Rightarrow> strip_roles platform rest (calls @ [r]) held
            | HTTPException \<Rightarrow> Inl HTTPError))"

definition remove_old_roles ::
  "(role \<Rightarrow> outcome) \<Rightarrow> role list \<Rightarrow> discord_error + (role list \<times> role list)" where
  "remove_old_roles platform member_roles = strip_roles platform member_roles [] member_roles"

section \<open>Properties of the ledger\<close>

lemma get_user_honor_set [simp]:
  "get_user_honor (set_user_honor uid v db) u =
     (if u = uid then max HONOR_MIN (min HONOR_MAX v) else get_user_honor db u)"
  by (simp add: get_user_honor_def set_user_honor_def)

lemma get_user_honor_log [simp]:
  "get_user_honor (log_honor_change now uid d rsn by db) u = get_user_honor db u"
  by (simp add: get_user_honor_def log_honor_change_def)

lemma honor_log_set [simp]: "honor_log (set_user_honor uid v db) = honor_log db"
  by (simp add: set_user_honor_def)

lemma get_user_honor_add:
  "get_user_honor (add_user_honor now uid d rsn by db) u =
     (if u = uid then max HONOR_MIN (min HONOR_MAX (get_user_honor db uid + d))
      else get_user_honor db u)"
  by (simp add: add_user_honor_def Let_def)

lemma honor_log_add:
  "honor_log (add_user_honor now uid d rsn by db) =
     honor_log db @
       [\<lparr>user_id = uid, delta = d, reason = rsn, by_user = by, ts = current_timestamp now\<rparr>]"
  by (simp add: add_user_honor_def Let_def log_honor_change_def)

lemma get_user_honor_init [simp]: "get_user_honor init_db u = 0"
  by (simp add: get_user_honor_def init_db_def)

text \<open>
  C1. \<open>add_user_honor\<close> reads the current balance, which is 0 for a user without a row,
  and stores the sum of balance and delta clamped to [-144000, 144000]. The clamp acts on
  every step: two additions of 100000 to a fresh account leave 144000, and a following
  deduction of 100000 leaves 44000, where a clamp of the total would give 100000.
\<close>

theorem add_user_honor_clamps_each_step:
  "get_user_honor db uid = (case user_honor db uid of None \<Rightarrow> 0 | Some h \<Rightarrow> h)
   \<and> user_honor (add_user_honor now uid d rsn by db) uid
       = Some (max (- 144000) (min 144000 (get_user_honor db uid + d)))
   \<and> get_user_honor (add_user_honor t2 uid 100000 r2 b2
        (add_user_honor t1 uid 100000 r1 b1 init_db)) uid = 144000
   \<and> get_user_honor (add_user_honor t3 uid (- 100000) r3 b3
        (add_user_honor t2 uid 100000 r2 b2
          (add_user_honor t1 uid 100000 r1 b1 init_db))) uid = 44000"
proof -
  have stored: "user_honor (add_user_honor now uid d rsn by db) uid
       = Some (max (- 144000) (min 144000 (get_user_honor db uid + d)))"
    by (simp add: add_user_honor_def Let_def log_honor_change_def set_user_honor_def
        HONOR_MIN_def HONOR_MAX_def)
  have twice: "get_user_honor (add_user_honor t2 uid 100000 r2 b2
        (add_user_honor t1 uid 100000 r1 b1 init_db)) uid = 144000"
    by (simp add: get_user_honor_add HONOR_MIN_def HONOR_MAX_def)
  have thrice: "get_user_honor (add_user_honor t3 uid (- 100000) r3 b3
        (add_user_honor t2 uid 100000 r2 b2
          (add_user_honor t1 uid 100000 r1 b1 init_db))) uid = 44000"
    by (simp add: get_user_honor_add HONOR_MIN_def HONOR_MAX_def)
  show ?thesis
    using stored twice thrice by (simp add: get_user_honor_def)
qed

text \<open>
  C2. \<open>add_user_honor\<close> appends exactly one row to \<open>honor_log\<close>, and the row carries the
  delta that was requested, whatever the clamp did to the balance: after two additions
  of 100000 to a fresh account the balance is 144000 and the log holds two rows of
  100000 each.
\<close>

theorem add_user_honor_logs_requested_delta:
  "honor_log (add_user_honor now uid d rsn by db)
     = honor_log db @
        [\<lparr>user_id = uid, delta = d, reason = rsn, by_user = by, ts = current_timestamp now\<rparr>]
   \<and> length (honor_log (add_user_honor now uid d rsn by db)) = length (honor_log db) + 1
   \<and> map delta (honor_log (add_user_honor t2 uid 100000 r2 b2
        (add_user_honor t1 uid 100000 r1 b1 init_db))) = [100000, 100000]
   \<and> map user_id (honor_log (add_user_honor t2 uid 100000 r2 b2
        (add_user_honor t1 uid 100000 r1 b1 init_db))) = [uid, uid]"
  by (simp add: honor_log_add init_db_def)


lemma set_user_honor_in_range:
  "balances_in_range db \<Longrightarrow> balances_in_range (set_user_honor uid v db)"
  by (auto simp: balances_in_range_def set_user_honor_def HONOR_MIN_def HONOR_MAX_def Let_def)

lemma add_user_honor_in_range:
  "balances_in_range db \<Longrightarrow> balances_in_range (add_user_honor now uid d rsn by db)"
  by (auto simp: balances_in_range_def add_user_honor_def log_honor_change_def
      set_user_honor_def HONOR_MIN_def HONOR_MAX_def Let_def)

lemma claim_daily_in_range:
  "balances_in_range db \<Longrightarrow> balances_in_range (claim_daily now uid db)"
  by (simp add: balances_in_range_def claim_daily_def)

lemma log_lootbox_in_range:
  "balances_in_range db \<Longrightarrow> balances_in_range (log_lootbox now uid rew db)"
  by (simp add: balances_in_range_def log_lootbox_def)

lemma handle_in_range: "balances_in_range db \<Longrightarrow> balances_in_range (handle now ev db)"
  by (cases ev)
    (auto simp: set_user_honor_in_range add_user_honor_in_range claim_daily_in_range
      log_lootbox_in_range split: option.splits)

lemma run_in_range: "balances_in_range db \<Longrightarrow> balances_in_range (run evs db)"
  by (induction evs arbitrary: db) (auto simp: handle_in_range)

lemma init_db_in_range: "balances_in_range init_db"
  by (simp add: balances_in_range_def init_db_def)

text \<open>
  C3. Every write to \<open>user_honor\<close> goes through \<open>set_user_honor\<close>, so after any run of
  events (the penalty for an insult, bless, thanks, helped, the daily bonus, the lootbox,
  and direct calls of \<open>set_user_honor\<close> and \<open>add_user_honor\<close> with any value) every
  stored balance lies between -144000 and 144000.
\<close>

theorem stored_balances_stay_in_range:
  "balances_in_range (run evs init_db)
   \<and> (balances_in_range db \<longrightarrow> balances_in_range (run evs db))"
  using run_in_range init_db_in_range by blast

theorem stored_balances_stay_in_range_witness:
  "balances_in_range
     (run [(\<lparr>utc_us = 0, tz_offset = 0\<rparr>, Bless 7 False),
           (\<lparr>utc_us = 5000000, tz_offset = 0\<rparr>, Lootbox 7 50000)] init_db)
   \<and> user_honor
     (run [(\<lparr>utc_us = 0, tz_offset = 0\<rparr>, Bless 7 False),
           (\<lparr>utc_us = 5000000, tz_offset = 0\<rparr>, Lootbox 7 50000)] init_db) 7 = Some 144000
   \<and> HONOR_MIN \<le> 144000 \<and> 144000 \<le> HONOR_MAX"
proof -
  have "user_honor
     (run [(\<lparr>utc_us = 0, tz_offset = 0\<rparr>, Bless 7 False),
           (\<lparr>utc_us = 5000000, tz_offset = 0\<rparr>, Lootbox 7 50000)] init_db) 7 = Some 144000"
    by (simp add: add_user_honor_def Let_def log_honor_change_def set_user_honor_def
        log_lootbox_def can_open_lootbox_def HONOR_MIN_def HONOR_MAX_def BLESS_AMOUNT_def
        init_db_def get_user_honor_def)
  then show ?thesis
    using stored_balances_stay_in_range
      [of "[(\<lparr>utc_us = 0, tz_offset = 0\<rparr>, Bless 7 False),
            (\<lparr>utc_us = 5000000, tz_offset = 0\<rparr>, Lootbox 7 50000)]" init_db]
    by (simp add: HONOR_MIN_def HONOR_MAX_def)
qed

section \<open>Store failures\<close>

text \<open>
  C6, as the code behaves. The balance and the log row are written by two calls that
  commit separately. When reading or writing the balance fails, \<open>add_user_honor\<close> raises
  and neither table has changed; when the insertion into \<open>honor_log\<close> fails, it raises
  with the clamped balance already stored and no log row written; when nothing fails,
  both are written.
\<close>

theorem add_user_honor_commits_balance_before_log:
  "add_user_honor_io (True, write_fails, log_fails) now uid d rsn by db = (Some StoreUnavailable, db)
   \<and> add_user_honor_io (False, True, log_fails) now uid d rsn by db = (Some StoreUnavailable, db)
   \<and> add_user_honor_io (False, False, True) now uid d rsn by db
       = (Some StoreUnavailable, set_user_honor uid (get_user_honor db uid + d) db)
   \<and> add_user_honor_io (False, False, False) now uid d rsn by db
       = (None, add_user_honor now uid d rsn by db)"
  by (simp add: add_user_honor_io_def get_user_honor_io_def set_user_honor_io_def
      log_honor_change_io_def add_user_honor_def Let_def)

text \<open>
  The claim as stated fails: when the log insertion fails for a fresh user and a delta of
  20, the call raises, the balance has gone from 0 to 20 and the log is empty.
\<close>

theorem add_user_honor_not_atomic_counterexample:
  "fst (add_user_honor_io (False, False, True) \<lparr>utc_us = 0, tz_offset = 0\<rparr> 1 20 [] None init_db)
     = Some StoreUnavailable
   \<and> get_user_honor init_db 1 = 0
   \<and> get_user_honor
       (snd (add_user_honor_io (False, False, True) \<lparr>utc_us = 0, tz_offset = 0\<rparr> 1 20 [] None
          init_db)) 1 = 20
   \<and> honor_log
       (snd (add_user_honor_io (False, False, True) \<lparr>utc_us = 0, tz_offset = 0\<rparr> 1 20 [] None
          init_db)) = []"
  by (simp add: add_user_honor_io_def get_user_honor_io_def set_user_honor_io_def
      log_honor_change_io_def set_user_honor_def Let_def HONOR_MIN_def HONOR_MAX_def
      init_db_def get_user_honor_def)

section \<open>The lootbox window\<close>

lemma can_open_lootbox_first_claim:
  "can_open_lootbox now (log_lootbox t uid rew init_db) uid
     \<longleftrightarrow> 86400000000 \<le> utc_us now + tz_offset now * 1000000 - (utc_us t div 1000000) * 1000000"
proof -
  let ?d = "utc_us now + tz_offset now * 1000000 - (utc_us t div 1000000) * 1000000"
  have "can_open_lootbox now (log_lootbox t uid rew init_db) uid
      \<longleftrightarrow> (86400::rat) \<le> of_int ?d / 1000000"
    by (simp add: can_open_lootbox_def log_lootbox_def init_db_def total_seconds_def
      datetime_now_def fromisoformat_def current_timestamp_def)
  also have "\<dots> \<longleftrightarrow> (of_int 86400000000 :: rat) \<le> of_int ?d"
    by (simp add: pos_le_divide_eq)
  also have "\<dots> \<longleftrightarrow> 86400000000 \<le> ?d"
    by (simp only: of_int_le_iff)
  finally show ?thesis .
qed

lemma can_open_lootbox_no_row: "can_open_lootbox now init_db uid"
  by (simp add: can_open_lootbox_def init_db_def)

text \<open>
  C7. A user without a row in \<open>loot_log\<close> may open a lootbox. After a claim the code
  compares the local time of the process with the UTC timestamp the database stored, so
  the window is 86400 seconds of elapsed time only where local time is UTC. With local
  time one hour ahead of UTC, a claim at instant 0 can be repeated 82800 seconds later;
  with local time five hours behind, it cannot be repeated after 86400 seconds.
\<close>

theorem can_open_lootbox_compares_local_time_with_utc:
  "can_open_lootbox \<lparr>utc_us = 82800000000, tz_offset = 3600\<rparr>
     (log_lootbox \<lparr>utc_us = 0, tz_offset = 3600\<rparr> 1 50 init_db) 1
   \<and> \<not> can_open_lootbox \<lparr>utc_us = 86400000000, tz_offset = - 18000\<rparr>
     (log_lootbox \<lparr>utc_us = 0, tz_offset = - 18000\<rparr> 1 50 init_db) 1
   \<and> \<not> can_open_lootbox \<lparr>utc_us = 0, tz_offset = 3600\<rparr>
     (log_lootbox \<lparr>utc_us = 0, tz_offset = 3600\<rparr> 1 50 init_db) 1
   \<and> can_open_lootbox \<lparr>utc_us = 0, tz_offset = 3600\<rparr> init_db 1"
  by (simp add: can_open_lootbox_def log_lootbox_def init_db_def total_seconds_def
      datetime_now_def fromisoformat_def current_timestamp_def)

section \<open>Counting reasons with LIKE\<close>

lemma sql_like_percent:
  "sql_like (CHR ''%'' # p) s \<longleftrightarrow> (\<exists>pre suf. s = pre @ suf \<and> sql_like p suf)"
proof (induction s)
  case Nil
  then show ?case by simp
next
  case (Cons c cs)
  show ?case
  proof
    assume "sql_like (CHR ''%'' # p) (c # cs)"
    then consider "sql_like p (c # cs)" | "sql_like (CHR ''%'' # p) cs" by auto
    then show "\<exists>pre suf. c # cs = pre @ suf \<and> sql_like p suf"
    proof cases
      case 1
      then show ?thesis by (intro exI[of _ "[]"] exI[of _ "c # cs"]) simp
    next
      case 2
      with Cons obtain pre suf where "cs = pre @ suf" "sql_like p suf" by auto
      then show ?thesis by (intro exI[of _ "c # pre"] exI[of _ suf]) simp
    qed
  next
    assume "\<exists>pre suf. c # cs = pre @ suf \<and> sql_like p suf"
    then obtain pre suf where ps: "c # cs = pre @ suf" "sql_like p suf" by auto
    show "sql_like (CHR ''%'' # p) (c # cs)"
    proof (cases pre)
      case Nil
      with ps have "sql_like p (c # cs)" by simp
      then show ?thesis by simp
    next
      case (Cons a pre')
      with ps have "cs = pre' @ suf" by simp
      with ps Cons.IH show ?thesis by auto
    qed
  qed
qed

lemma sql_like_only_percent: "sql_like ''%'' s"
  by (induction s) auto

lemma sql_like_literal_prefix:
  "CHR ''%'' \<notin> set q \<Longrightarrow> CHR ''_'' \<notin> set q \<Longrightarrow>
   sql_like (q @ ''%'') s \<longleftrightarrow> (\<exists>a b. s = a @ b \<and> lower a = lower q)"
proof (induction q arbitrary: s)
  case Nil
  then show ?case by (simp add: sql_like_only_percent lower_def)
next
  case (Cons x xs)
  show ?case
  proof (cases s)
    case Nil
    then show ?thesis using Cons.prems by (auto simp: lower_def)
  next
    case (Cons c cs)
    have "sql_like ((x # xs) @ ''%'') (c # cs)
        \<longleftrightarrow> lower_ascii x = lower_ascii c \<and> sql_like (xs @ ''%'') cs"
      using Cons.prems by auto
    also have "\<dots> \<longleftrightarrow> lower_ascii x = lower_ascii c \<and> (\<exists>a b. cs = a @ b \<and> lower a = lower xs)"
      using Cons.IH Cons.prems by simp
    also have "\<dots> \<longleftrightarrow> (\<exists>a b. c # cs = a @ b \<and> lower a = lower (x # xs))"
    proof
      assume "lower_ascii x = lower_ascii c \<and> (\<exists>a b. cs = a @ b \<and> lower a = lower xs)"
      then obtain a b where "lower_ascii x = lower_ascii c" "cs = a @ b" "lower a = lower xs"
        by blast
      then have "c # cs = (c # a) @ b \<and> lower (c # a) = lower (x # xs)"
        by (simp add: lower_def)
      then show "\<exists>a b. c # cs = a @ b \<and> lower a = lower (x # xs)" by blast
    next
      assume "\<exists>a b. c # cs = a @ b \<and> lower a = lower (x # xs)"
      then obtain a b where ab: "c # cs = a @ b" "lower a = lower (x # xs)" by blast
      then obtain a' where a: "a = c # a'" by (cases a) (auto simp: lower_def)
      with ab have "lower_ascii x = lower_ascii c" "cs = a' @ b" "lower a' = lower xs"
        by (auto simp: lower_def)
      then show "lower_ascii x = lower_ascii c \<and> (\<exists>a b. cs = a @ b \<and> lower a = lower xs)"
        by blast
    qed
    finally show ?thesis using Cons by simp
  qed
qed

lemma sublist_lower:
  "sublist (lower q) (lower s) \<longleftrightarrow> (\<exists>pre a post. s = pre @ a @ post \<and> lower a = lower q)"
proof
  assume "sublist (lower q) (lower s)"
  then obtain ps ss where "map lower_ascii s = ps @ map lower_ascii q @ ss"
    by (auto simp: sublist_def lower_def)
  then obtain pre rest where s: "s = pre @ rest"
    and "map lower_ascii rest = map lower_ascii q @ ss"
    by (metis map_eq_append_conv)
  then obtain a post where "rest = a @ post" "map lower_ascii a = map lower_ascii q"
    by (metis map_eq_append_conv)
  with s show "\<exists>pre a post. s = pre @ a @ post \<and> lower a = lower q"
    by (auto simp: lower_def)
next
  assume "\<exists>pre a post. s = pre @ a @ post \<and> lower a = lower q"
  then obtain pre a post where "s = pre @ a @ post" "lower a = lower q" by blast
  then have "lower s = lower pre @ lower q @ lower post"
    by (simp add: lower_def)
  then show "sublist (lower q) (lower s)"
    by (auto simp: sublist_def)
qed

lemma sql_like_contains:
  assumes "CHR ''%'' \<notin> set q" "CHR ''_'' \<notin> set q"
  shows "sql_like (''%'' @ q @ ''%'') s \<longleftrightarrow> sublist (lower q) (lower s)"
proof -
  have "sql_like (''%'' @ q @ ''%'') s
      \<longleftrightarrow> (\<exists>pre suf. s = pre @ suf \<and> sql_like (q @ ''%'') suf)"
    using sql_like_percent[of "q @ ''%''" s] by simp
  also have "\<dots> \<longleftrightarrow> (\<exists>pre suf. s = pre @ suf \<and> (\<exists>a b. suf = a @ b \<and> lower a = lower q))"
    using sql_like_literal_prefix[OF assms] by simp
  also have "\<dots> \<longleftrightarrow> (\<exists>pre a post. s = pre @ a @ post \<and> lower a = lower q)"
    by blast
  finally show ?thesis by (simp add: sublist_lower)
qed

text \<open>
  C8, as the code behaves. For a query without the characters \<open>%\<close> and \<open>_\<close>,
  \<open>get_achievement_count\<close> is the number of rows of the user in \<open>honor_log\<close> whose reason
  contains the query as a substring once the letters A to Z of both are folded to lower
  case: the match does not distinguish the case of these letters.
\<close>

theorem get_achievement_count_ignores_case:
  assumes "CHR ''%'' \<notin> set q" and "CHR ''_'' \<notin> set q"
  shows "get_achievement_count db uid q =
     length (filter (\<lambda>r. user_id r = uid \<and> sublist (lower q) (lower (reason r))) (honor_log db))"
  unfolding get_achievement_count_def using sql_like_contains[OF assms] by simp

theorem get_achievement_count_ignores_case_witness:
  "CHR ''%'' \<notin> set ''bless'' \<and> CHR ''_'' \<notin> set ''bless''
   \<and> get_achievement_count
       (add_user_honor \<lparr>utc_us = 0, tz_offset = 0\<rparr> 1 5 ''Blessed by a mod'' None init_db) 1 ''bless''
     = length (filter (\<lambda>r. user_id r = 1 \<and> sublist (lower ''bless'') (lower (reason r)))
         (honor_log
           (add_user_honor \<lparr>utc_us = 0, tz_offset = 0\<rparr> 1 5 ''Blessed by a mod'' None init_db)))"
proof -
  have a: "CHR ''%'' \<notin> set ''bless''" and b: "CHR ''_'' \<notin> set ''bless''"
    by simp_all
  show ?thesis
    using a b get_achievement_count_ignores_case [OF a b] by blast
qed

text \<open>
  The claim as stated fails: a row whose reason is \<open>Blessed by a mod\<close> does not contain
  \<open>bless\<close> letter for letter, and the query \<open>bless\<close> counts it.
\<close>

theorem get_achievement_count_case_counterexample:
  "get_achievement_count
     (add_user_honor \<lparr>utc_us = 0, tz_offset = 0\<rparr> 1 5 ''Blessed by a mod'' None init_db) 1 ''bless''
     = 1
   \<and> \<not> sublist ''bless'' ''Blessed by a mod''"
proof -
  have "get_achievement_count
     (add_user_honor \<lparr>utc_us = 0, tz_offset = 0\<rparr> 1 5 ''Blessed by a mod'' None init_db) 1 ''bless''
     = 1"
    by code_simp
  moreover have "\<not> sublist ''bless'' ''Blessed by a mod''"
    by (simp add: sublist_code)
  ultimately show ?thesis by simp
qed


section \<open>Rank of a balance\<close>

lemma first_reached_find:
  "first_reached rs honor = map_option snd (find (\<lambda>r. fst r \<le> honor) rs)"
  by (induction rs honor rule: first_reached.induct) auto

lemma find_desc_greatest:
  fixes rs :: "rank list"
  assumes "sorted (map (\<lambda>x. - fst x) rs)" "find (\<lambda>r. fst r \<le> honor) rs = Some r"
  shows "r \<in> set rs \<and> fst r \<le> honor \<and> (\<forall>q\<in>set rs. fst q \<le> honor \<longrightarrow> fst q \<le> fst r)"
  using assms
proof (induction rs)
  case Nil
  then show ?case by simp
next
  case (Cons x xs)
  show ?case
  proof (cases "fst x \<le> honor")
    case True
    with Cons.prems have "r = x" by simp
    moreover have "\<forall>q\<in>set xs. fst q \<le> fst x" using Cons.prems(1) by simp
    ultimately show ?thesis using True by auto
  next
    case False
    with Cons.prems have "find (\<lambda>r. fst r \<le> honor) xs = Some r" "sorted (map (\<lambda>x. - fst x) xs)"
      by auto
    with Cons.IH have "r \<in> set xs \<and> fst r \<le> honor \<and> (\<forall>q\<in>set xs. fst q \<le> honor \<longrightarrow> fst q \<le> fst r)"
      by blast
    with False show ?thesis by auto
  qed
qed

lemma get_rank_found:
  assumes "q \<in> set RANKS" "fst q \<le> honor"
  shows "\<exists>r\<in>set RANKS. get_rank RANKS honor = Inr (snd r) \<and> fst r \<le> honor
            \<and> (\<forall>q\<in>set RANKS. fst q \<le> honor \<longrightarrow> fst q \<le> fst r)"
proof -
  let ?ds = "sort_key (\<lambda>x. - fst x) RANKS"
  have "q \<in> set ?ds" using assms by simp
  with assms(2) have "find (\<lambda>r. fst r \<le> honor) ?ds \<noteq> None"
    unfolding find_None_iff by blast
  then obtain r where f: "find (\<lambda>r. fst r \<le> honor) ?ds = Some r"
    by blast
  have "sorted (map (\<lambda>x. - fst x) ?ds)" by (rule sorted_sort_key)
  from find_desc_greatest[OF this f]
  have "r \<in> set RANKS" "fst r \<le> honor" "\<forall>q\<in>set RANKS. fst q \<le> honor \<longrightarrow> fst q \<le> fst r"
    by auto
  moreover have "get_rank RANKS honor = Inr (snd r)"
    by (simp add: get_rank_def first_reached_find f)
  ultimately show ?thesis by blast
qed

lemma get_rank_fallback:
  assumes "\<forall>q\<in>set RANKS. honor < fst q" "RANKS \<noteq> []"
  shows "get_rank RANKS honor = Inr (snd (hd RANKS))"
proof -
  have "find (\<lambda>r. fst r \<le> honor) (sort_key (\<lambda>x. - fst x) RANKS) = None"
    using assms(1) by (auto simp: find_None_iff)
  then show ?thesis using assms(2)
    by (cases RANKS) (simp_all add: get_rank_def first_reached_find)
qed

lemma get_rank_at_threshold:
  assumes "r \<in> set RANKS" "distinct (map fst RANKS)"
  shows "get_rank RANKS (fst r) = Inr (snd r)"
proof -
  from get_rank_found[OF assms(1), of "fst r"] obtain r' where
    r': "r' \<in> set RANKS" "get_rank RANKS (fst r) = Inr (snd r')" "fst r' \<le> fst r"
      "\<forall>q\<in>set RANKS. fst q \<le> fst r \<longrightarrow> fst q \<le> fst r'"
    by auto
  with assms(1) have "fst r' = fst r" by force
  with assms r'(1) have "r' = r"
    by (meson distinct_map inj_onD)
  with r'(2) show ?thesis by simp
qed

lemma hd_least_threshold: "sorted (map fst (RANKS :: rank list)) \<Longrightarrow> q \<in> set RANKS \<Longrightarrow> fst (hd RANKS) \<le> fst q"
  by (cases RANKS) auto

text \<open>
  C4. \<open>get_rank\<close> goes through the tiers from the highest threshold down and returns the
  first one whose threshold the balance reaches; when the balance is below every
  threshold it returns the first tier of the table, which is the tier of the lowest
  threshold in a table sorted by threshold. For a table that is not empty, sorted, and
  has no threshold twice, every balance has exactly one tier (the one of the greatest
  threshold it reaches, or the lowest one), \<open>get_rank\<close> returns it, and at the threshold
  of a tier it returns that tier: with Peasant at 0, Knight at 1000 and Lord at 5000,
  999 is a Peasant and 1000 is a Knight.
\<close>

theorem get_rank_greatest_threshold_reached:
  assumes "RANKS \<noteq> []" and "sorted (map fst RANKS)" and "distinct (map fst RANKS)"
  shows "(\<exists>!r. r \<in> set RANKS \<and>
            (if \<exists>q\<in>set RANKS. fst q \<le> honor
             then fst r \<le> honor \<and> (\<forall>q\<in>set RANKS. fst q \<le> honor \<longrightarrow> fst q \<le> fst r)
             else \<forall>q\<in>set RANKS. fst r \<le> fst q))
       \<and> (\<exists>r. r \<in> set RANKS \<and> get_rank RANKS honor = Inr (snd r) \<and>
            (if \<exists>q\<in>set RANKS. fst q \<le> honor
             then fst r \<le> honor \<and> (\<forall>q\<in>set RANKS. fst q \<le> honor \<longrightarrow> fst q \<le> fst r)
             else \<forall>q\<in>set RANKS. fst r \<le> fst q))
       \<and> (\<forall>r\<in>set RANKS. get_rank RANKS (fst r) = Inr (snd r))
       \<and> get_rank [(0, ''Peasant'', e0, c0), (1000, ''Knight'', e1, c1), (5000, ''Lord'', e2, c2)] 999
           = Inr (''Peasant'', e0, c0)
       \<and> get_rank [(0, ''Peasant'', e0, c0), (1000, ''Knight'', e1, c1), (5000, ''Lord'', e2, c2)] 1000
           = Inr (''Knight'', e1, c1)"
proof -
  let ?P = "\<lambda>r. r \<in> set RANKS \<and>
            (if \<exists>q\<in>set RANKS. fst q \<le> honor
             then fst r \<le> honor \<and> (\<forall>q\<in>set RANKS. fst q \<le> honor \<longrightarrow> fst q \<le> fst r)
             else \<forall>q\<in>set RANKS. fst r \<le> fst q)"
  have ex: "\<exists>r. ?P r \<and> get_rank RANKS honor = Inr (snd r)"
  proof (cases "\<exists>q\<in>set RANKS. fst q \<le> honor")
    case True
    then obtain q where "q \<in> set RANKS" "fst q \<le> honor" by blast
    from get_rank_found[OF this] True show ?thesis by auto
  next
    case False
    then have "\<forall>q\<in>set RANKS. honor < fst q" by auto
    from get_rank_fallback[OF this assms(1)] have "get_rank RANKS honor = Inr (snd (hd RANKS))" .
    moreover have "hd RANKS \<in> set RANKS" using assms(1) by simp
    moreover have "\<forall>q\<in>set RANKS. fst (hd RANKS) \<le> fst q" using hd_least_threshold[OF assms(2)] by blast
    ultimately show ?thesis using False by (intro exI[of _ "hd RANKS"]) simp
  qed
  have uniq: "a = b" if "?P a" "?P b" for a b
  proof -
    from that have "fst a = fst b"
      by (cases "\<exists>q\<in>set RANKS. fst q \<le> honor") (auto intro: antisym)
    with that assms(3) show ?thesis by (meson distinct_map inj_onD)
  qed
  from ex obtain r where r: "?P r" "get_rank RANKS honor = Inr (snd r)" by blast
  have "\<exists>!r. ?P r" using r(1) uniq by blast
  moreover have "\<exists>r. r \<in> set RANKS \<and> get_rank RANKS honor = Inr (snd r) \<and>
            (if \<exists>q\<in>set RANKS. fst q \<le> honor
             then fst r \<le> honor \<and> (\<forall>q\<in>set RANKS. fst q \<le> honor \<longrightarrow> fst q \<le> fst r)
             else \<forall>q\<in>set RANKS. fst r \<le> fst q)"
    using r by blast
  moreover have "\<forall>r\<in>set RANKS. get_rank RANKS (fst r) = Inr (snd r)"
    using get_rank_at_threshold assms(3) by blast
  moreover have "get_rank [(0, ''Peasant'', e0, c0), (1000, ''Knight'', e1, c1), (5000, ''Lord'', e2, c2)] 999
           = Inr (''Peasant'', e0, c0)"
    by (simp add: get_rank_def)
  moreover have "get_rank [(0, ''Peasant'', e0, c0), (1000, ''Knight'', e1, c1), (5000, ''Lord'', e2, c2)] 1000
           = Inr (''Knight'', e1, c1)"
    by (simp add: get_rank_def)
  ultimately show ?thesis by blast
qed

theorem get_rank_greatest_threshold_reached_witness:
  "[(0, ''Peasant'', ''p'', 1), (1000, ''Knight'', ''k'', 2), (5000, ''Lord'', ''l'', 3)] \<noteq> ([] :: rank list)
   \<and> sorted (map fst [(0, ''Peasant'', ''p'', 1), (1000, ''Knight'', ''k'', 2), (5000, ''Lord'', ''l'', 3 :: nat)] :: int list)
   \<and> distinct (map fst [(0, ''Peasant'', ''p'', 1), (1000, ''Knight'', ''k'', 2), (5000, ''Lord'', ''l'', 3 :: nat)] :: int list)
   \<and> get_rank [(0, ''Peasant'', ''p'', 1), (1000, ''Knight'', ''k'', 2), (5000, ''Lord'', ''l'', 3)] 5000
       = Inr (''Lord'', ''l'', 3)"
proof -
  let ?t = "[(0, ''Peasant'', ''p'', 1), (1000, ''Knight'', ''k'', 2), (5000, ''Lord'', ''l'', 3)] :: rank list"
  have h1: "?t \<noteq> []" and h2: "sorted (map fst ?t)" and h3: "distinct (map fst ?t)"
    by simp_all
  from get_rank_greatest_threshold_reached [OF h1 h2 h3]
  have "\<forall>r\<in>set ?t. get_rank ?t (fst r) = Inr (snd r)" by blast
  then have "get_rank ?t 5000 = Inr (''Lord'', ''l'', 3)" by simp
  with h1 h2 h3 show ?thesis by blast
qed

section \<open>Progress towards the next tier\<close>

lemma sort_key_Nil_iff: "sort_key f xs = [] \<longleftrightarrow> xs = []"
  by (metis length_0_conv length_sort)

lemma scan_prev_at_threshold:
  fixes xs :: "rank list"
  assumes "sorted (map fst xs)" "\<forall>x\<in>set xs. fst p \<le> fst x"
    "fst p = honor \<or> (\<exists>r\<in>set xs. fst r = honor)"
  shows "fst (fst (scan_ranks xs honor p n)) = honor"
  using assms
proof (induction xs arbitrary: p)
  case Nil
  then show ?case by simp
next
  case (Cons x xs)
  show ?case
  proof (cases "honor < fst x")
    case True
    have "\<forall>r\<in>set (x # xs). fst x \<le> fst r" using Cons.prems(1) by simp
    with True have "\<not> (\<exists>r\<in>set (x # xs). fst r = honor)" by force
    with Cons.prems(3) have "fst p = honor" by blast
    with True show ?thesis by simp
  next
    case False
    have s: "sorted (map fst xs)" "\<forall>y\<in>set xs. fst x \<le> fst y" using Cons.prems(1) by simp_all
    have "fst x = honor \<or> (\<exists>r\<in>set xs. fst r = honor)"
    proof (cases "fst p = honor")
      case True
      moreover have "fst p \<le> fst x" using Cons.prems(2) by simp
      ultimately show ?thesis using False by simp
    next
      case False
      with Cons.prems(3) show ?thesis by auto
    qed
    from Cons.IH[OF s this] False show ?thesis by simp
  qed
qed

lemma scan_all_reached:
  "\<forall>x\<in>set xs. fst x \<le> honor \<Longrightarrow>
   scan_ranks xs honor p n = (if xs = [] then p else last xs, n)"
  by (induction xs arbitrary: p) auto

lemma get_progress_bar_eq:
  assumes "RANKS \<noteq> []"
    and "scan_ranks (sort_key fst RANKS) honor (hd (sort_key fst RANKS)) (last (sort_key fst RANKS))
           = (prev, nxt)"
  shows "get_progress_bar RANKS honor =
     Inr \<lparr>percent = (if fst nxt - fst prev = 0 then 0
                     else min (max (of_int (honor - fst prev) / of_int (fst nxt - fst prev)) 0) 1),
          filled = \<lfloor>(if fst nxt - fst prev = 0 then 0
                     else min (max (of_int (honor - fst prev) / of_int (fst nxt - fst prev)) 0) (1::rat)) * 16\<rfloor>,
          pos = honor - fst prev, span = fst nxt - fst prev, next_rank = nxt\<rparr>"
  using assms by (simp add: get_progress_bar_def Let_def truediv_def sort_key_Nil_iff)

lemma get_progress_bar_no_zero_division: "get_progress_bar RANKS honor \<noteq> Inl ZeroDivisionError"
proof (cases "RANKS = []")
  case True
  then show ?thesis by (simp add: get_progress_bar_def)
next
  case False
  obtain prev nxt where "scan_ranks (sort_key fst RANKS) honor (hd (sort_key fst RANKS)) (last (sort_key fst RANKS))
           = (prev, nxt)" by (cases "scan_ranks (sort_key fst RANKS) honor (hd (sort_key fst RANKS)) (last (sort_key fst RANKS))")
  from get_progress_bar_eq[OF False this] show ?thesis by simp
qed

text \<open>
  C9. \<open>get_progress_bar\<close> never raises ZeroDivisionError: the quotient is formed only
  when the span is not 0, and a span of 0 gives the fraction 0. For a table that is not
  empty the fraction lies between 0 and 1; when the balance is the threshold of a tier,
  the distance to the tier below is 0 and so is the fraction; when the balance has
  reached every threshold, the span is 0 and the fraction is 0.
\<close>

theorem get_progress_bar_fraction_in_unit_interval:
  "get_progress_bar RANKS honor \<noteq> Inl ZeroDivisionError
   \<and> (RANKS \<noteq> [] \<longrightarrow>
       (\<exists>p. get_progress_bar RANKS honor = Inr p
          \<and> 0 \<le> percent p \<and> percent p \<le> 1
          \<and> (span p = 0 \<longrightarrow> percent p = 0)
          \<and> ((\<exists>r\<in>set RANKS. fst r = honor) \<longrightarrow> pos p = 0 \<and> percent p = 0)
          \<and> ((\<forall>r\<in>set RANKS. fst r \<le> honor) \<longrightarrow> span p = 0 \<and> percent p = 0)))"
proof (intro conjI impI)
  show "get_progress_bar RANKS honor \<noteq> Inl ZeroDivisionError"
    by (rule get_progress_bar_no_zero_division)
next
  assume ne: "RANKS \<noteq> []"
  let ?ss = "sort_key fst RANKS"
  have ssne: "?ss \<noteq> []" using ne by (simp add: sort_key_Nil_iff)
  have sorted: "sorted (map fst ?ss)" by (rule sorted_sort_key)
  obtain prev nxt where sc: "scan_ranks ?ss honor (hd ?ss) (last ?ss) = (prev, nxt)"
    by (cases "scan_ranks ?ss honor (hd ?ss) (last ?ss)")
  let ?p = "\<lparr>percent = (if fst nxt - fst prev = 0 then 0
                     else min (max (of_int (honor - fst prev) / of_int (fst nxt - fst prev)) 0) 1),
          filled = \<lfloor>(if fst nxt - fst prev = 0 then 0
                     else min (max (of_int (honor - fst prev) / of_int (fst nxt - fst prev)) 0) (1::rat)) * 16\<rfloor>,
          pos = honor - fst prev, span = fst nxt - fst prev, next_rank = nxt\<rparr>"
  have eq: "get_progress_bar RANKS honor = Inr ?p"
    by (rule get_progress_bar_eq[OF ne sc])
  have range: "0 \<le> percent ?p \<and> percent ?p \<le> 1" by simp
  have zero: "span ?p = 0 \<longrightarrow> percent ?p = 0" by simp
  have at: "(\<exists>r\<in>set RANKS. fst r = honor) \<longrightarrow> pos ?p = 0 \<and> percent ?p = 0"
  proof
    assume "\<exists>r\<in>set RANKS. fst r = honor"
    then have ex: "\<exists>r\<in>set ?ss. fst r = honor" by simp
    have "\<forall>x\<in>set ?ss. fst (hd ?ss) \<le> fst x"
      using sorted ssne by (cases ?ss) auto
    from scan_prev_at_threshold[OF sorted this, of honor "last ?ss"] ex sc
    have "fst prev = honor" by simp
    then show "pos ?p = 0 \<and> percent ?p = 0" by simp
  qed
  have above: "(\<forall>r\<in>set RANKS. fst r \<le> honor) \<longrightarrow> span ?p = 0 \<and> percent ?p = 0"
  proof
    assume "\<forall>r\<in>set RANKS. fst r \<le> honor"
    then have "\<forall>r\<in>set ?ss. fst r \<le> honor" by simp
    from scan_all_reached[OF this, of "hd ?ss" "last ?ss"] sc ssne
    have "prev = last ?ss" "nxt = last ?ss" by simp_all
    then show "span ?p = 0 \<and> percent ?p = 0" by simp
  qed
  show "\<exists>p. get_progress_bar RANKS honor = Inr p
          \<and> 0 \<le> percent p \<and> percent p \<le> 1
          \<and> (span p = 0 \<longrightarrow> percent p = 0)
          \<and> ((\<exists>r\<in>set RANKS. fst r = honor) \<longrightarrow> pos p = 0 \<and> percent p = 0)
          \<and> ((\<forall>r\<in>set RANKS. fst r \<le> honor) \<longrightarrow> span p = 0 \<and> percent p = 0)"
    using eq range zero at above by blast
qed


theorem get_progress_bar_fraction_in_unit_interval_witness:
  "[(0, ''Peasant'', ''p'', 1), (1000, ''Knight'', ''k'', 2), (5000, ''Lord'', ''l'', 3)] \<noteq> ([] :: rank list)
   \<and> (\<exists>p. get_progress_bar
            [(0, ''Peasant'', ''p'', 1), (1000, ''Knight'', ''k'', 2), (5000, ''Lord'', ''l'', 3)] 1000 = Inr p
          \<and> 0 \<le> percent p \<and> percent p \<le> 1 \<and> pos p = 0 \<and> percent p = 0)"
proof -
  let ?t = "[(0, ''Peasant'', ''p'', 1), (1000, ''Knight'', ''k'', 2), (5000, ''Lord'', ''l'', 3)] :: rank list"
  have ne: "?t \<noteq> []" by simp
  have at: "\<exists>r\<in>set ?t. fst r = 1000" by simp
  from get_progress_bar_fraction_in_unit_interval [of ?t 1000] ne
  obtain p where p: "get_progress_bar ?t 1000 = Inr p" "0 \<le> percent p" "percent p \<le> 1"
    "(\<exists>r\<in>set ?t. fst r = 1000) \<longrightarrow> pos p = 0 \<and> percent p = 0"
    by blast
  with at have "pos p = 0 \<and> percent p = 0" by blast
  with p ne show ?thesis by blast
qed


section \<open>Reward roles\<close>

lemma role_in_iff: "role_in r rs \<longleftrightarrow> (\<exists>y\<in>set rs. role_id y = role_id r)"
  unfolding role_in_def set_map image_iff by (rule bex_cong[OF refl]) (rule eq_commute)

lemma reward_calls_add:
  "AddRoles r \<in> set (reward_calls tbl honor g m)
   \<longleftrightarrow> (\<exists>(t, n) \<in> set tbl. get_role g n = Some r \<and> t \<le> honor \<and> \<not> role_in r m)"
  by (induction tbl honor g m rule: reward_calls.induct) (auto split: option.splits)

lemma reward_calls_remove:
  "RemoveRoles r \<in> set (reward_calls tbl honor g m)
   \<longleftrightarrow> (\<exists>(t, n) \<in> set tbl. get_role g n = Some r \<and> honor < t \<and> role_in r m)"
  by (induction tbl honor g m rule: reward_calls.induct) (auto split: option.splits)

lemma reward_calls_cong:
  "set (map role_id m2) = set (map role_id m) \<Longrightarrow>
   reward_calls tbl honor g m2 = reward_calls tbl honor g m"
  by (induction tbl honor g m rule: reward_calls.induct)
    (simp_all add: role_in_def split: option.splits)

lemma role_in_add: "role_in x (apply_call (AddRoles r) rs) \<longleftrightarrow> role_in x rs \<or> role_id x = role_id r"
  by (auto simp: role_in_iff)

lemma role_in_remove:
  "role_in x (apply_call (RemoveRoles r) rs) \<longleftrightarrow> role_in x rs \<and> role_id x \<noteq> role_id r"
  by (auto simp: role_in_iff)

lemma role_in_kept:
  "\<forall>r. RemoveRoles r \<in> set cs \<longrightarrow> role_id r \<noteq> role_id x \<Longrightarrow>
   role_in x rs \<or> (\<exists>r. AddRoles r \<in> set cs \<and> role_id r = role_id x) \<Longrightarrow>
   role_in x (apply_calls cs rs)"
proof (induction cs arbitrary: rs)
  case Nil
  then show ?case by simp
next
  case (Cons c cs)
  have keep: "\<forall>r. RemoveRoles r \<in> set cs \<longrightarrow> role_id r \<noteq> role_id x"
    using Cons.prems(1) by simp
  have "role_in x (apply_call c rs) \<or> (\<exists>r. AddRoles r \<in> set cs \<and> role_id r = role_id x)"
  proof (cases c)
    case (AddRoles r)
    with Cons.prems(2) show ?thesis
      unfolding AddRoles role_in_add by auto
  next
    case (RemoveRoles r)
    with Cons.prems(1) have "role_id r \<noteq> role_id x" by simp
    with Cons.prems(2) RemoveRoles show ?thesis
      unfolding RemoveRoles role_in_remove by auto
  qed
  from Cons.IH[OF keep this] show ?case by simp
qed

lemma role_in_dropped:
  "\<forall>r. AddRoles r \<in> set cs \<longrightarrow> role_id r \<noteq> role_id x \<Longrightarrow>
   \<not> role_in x rs \<or> (\<exists>r. RemoveRoles r \<in> set cs \<and> role_id r = role_id x) \<Longrightarrow>
   \<not> role_in x (apply_calls cs rs)"
proof (induction cs arbitrary: rs)
  case Nil
  then show ?case by simp
next
  case (Cons c cs)
  have keep: "\<forall>r. AddRoles r \<in> set cs \<longrightarrow> role_id r \<noteq> role_id x"
    using Cons.prems(1) by simp
  have "\<not> role_in x (apply_call c rs) \<or> (\<exists>r. RemoveRoles r \<in> set cs \<and> role_id r = role_id x)"
  proof (cases c)
    case (AddRoles r)
    with Cons.prems(1) have "role_id r \<noteq> role_id x" by simp
    with Cons.prems(2) AddRoles show ?thesis
      unfolding AddRoles role_in_add by auto
  next
    case (RemoveRoles r)
    with Cons.prems(2) show ?thesis
      unfolding RemoveRoles role_in_remove by auto
  qed
  from Cons.IH[OF keep this] show ?case by simp
qed

lemma get_role_Some: "get_role g n = Some r \<Longrightarrow> r \<in> set g \<and> role_name r = n"
  unfolding get_role_def by (auto simp: find_Some_iff)

lemma reward_calls_settled:
  "\<forall>(t, n) \<in> set tbl. \<forall>r. get_role g n = Some r \<longrightarrow> (role_in r m \<longleftrightarrow> t \<le> honor) \<Longrightarrow>
   reward_calls tbl honor g m = []"
  by (induction tbl honor g m rule: reward_calls.induct) (auto split: option.splits)

lemma same_role:
  assumes "distinct (map role_id g)" "get_role g n = Some r" "get_role g n' = Some r'"
    "role_id r' = role_id r"
  shows "n' = n"
proof -
  from assms(2,3) have "r \<in> set g" "r' \<in> set g" "role_name r = n" "role_name r' = n'"
    by (auto dest: get_role_Some)
  with assms(1,4) have "r' = r" by (meson distinct_map inj_onD)
  with \<open>role_name r = n\<close> \<open>role_name r' = n'\<close> show ?thesis by simp
qed

lemma reward_calls_idempotent:
  assumes ids: "distinct (map role_id g)" and names: "distinct (map snd tbl)"
  shows "reward_calls tbl honor g (apply_calls (reward_calls tbl honor g m) m) = []"
proof (rule reward_calls_settled, clarify)
  fix t n r
  assume tn: "(t, n) \<in> set tbl" and r: "get_role g n = Some r"
  let ?cs = "reward_calls tbl honor g m"
  have thr: "t' = t" if "(t', n) \<in> set tbl" for t'
  proof -
    have "inj_on snd (set tbl)" using names by (simp add: distinct_map)
    from inj_onD[OF this, of "(t', n)" "(t, n)"] that tn show ?thesis by simp
  qed
  show "role_in r (apply_calls ?cs m) \<longleftrightarrow> t \<le> honor"
  proof (cases "t \<le> honor")
    case True
    have "\<forall>r'. RemoveRoles r' \<in> set ?cs \<longrightarrow> role_id r' \<noteq> role_id r"
    proof (intro allI impI notI)
      fix r' assume rem: "RemoveRoles r' \<in> set ?cs" and same: "role_id r' = role_id r"
      from rem obtain t' n' where e: "(t', n') \<in> set tbl" "get_role g n' = Some r'" "honor < t'"
        unfolding reward_calls_remove by blast
      from same_role[OF ids r e(2) same] have "n' = n" .
      with e(1) thr have "t' = t" by blast
      with e(3) True show False by simp
    qed
    moreover have "role_in r m \<or> (\<exists>r'. AddRoles r' \<in> set ?cs \<and> role_id r' = role_id r)"
    proof (cases "role_in r m")
      case True
      then show ?thesis by simp
    next
      case False
      with tn r \<open>t \<le> honor\<close> have "AddRoles r \<in> set ?cs"
        unfolding reward_calls_add by blast
      then show ?thesis by blast
    qed
    ultimately have "role_in r (apply_calls ?cs m)" by (rule role_in_kept)
    with True show ?thesis by simp
  next
    case False
    have "\<forall>r'. AddRoles r' \<in> set ?cs \<longrightarrow> role_id r' \<noteq> role_id r"
    proof (intro allI impI notI)
      fix r' assume add: "AddRoles r' \<in> set ?cs" and same: "role_id r' = role_id r"
      from add obtain t' n' where e: "(t', n') \<in> set tbl" "get_role g n' = Some r'" "t' \<le> honor"
        unfolding reward_calls_add by blast
      from same_role[OF ids r e(2) same] have "n' = n" .
      with e(1) thr have "t' = t" by blast
      with e(3) False show False by simp
    qed
    moreover have "\<not> role_in r m \<or> (\<exists>r'. RemoveRoles r' \<in> set ?cs \<and> role_id r' = role_id r)"
    proof (cases "role_in r m")
      case True
      with tn r False have "RemoveRoles r \<in> set ?cs"
        unfolding reward_calls_remove by force
      then show ?thesis by blast
    next
      case False
      then show ?thesis by simp
    qed
    ultimately have "\<not> role_in r (apply_calls ?cs m)" by (rule role_in_dropped)
    with False show ?thesis by simp
  qed
qed

text \<open>
  C5. The calls of \<open>check_rewards\<close> are: add every reward role of the guild whose
  threshold the balance reaches and that the member does not hold, remove every reward
  role of the guild whose threshold is above the balance and that the member holds. The
  calls depend on the observed roles only through their ids, so the same inputs give the
  same calls, and once the calls have been applied a second run issues none. Role ids
  are unique within a guild.
\<close>

theorem check_rewards_diff_idempotent:
  assumes "distinct (map role_id guild_roles)"
  shows "(AddRoles r \<in> set (check_rewards honor guild_roles member_roles)
            \<longleftrightarrow> (\<exists>(t, n) \<in> set REWARD_ROLES. get_role guild_roles n = Some r \<and> t \<le> honor
                    \<and> \<not> role_in r member_roles))
       \<and> (RemoveRoles r \<in> set (check_rewards honor guild_roles member_roles)
            \<longleftrightarrow> (\<exists>(t, n) \<in> set REWARD_ROLES. get_role guild_roles n = Some r \<and> honor < t
                    \<and> role_in r member_roles))
       \<and> (set (map role_id observed) = set (map role_id member_roles)
            \<longrightarrow> check_rewards honor guild_roles observed = check_rewards honor guild_roles member_roles)
       \<and> check_rewards honor guild_roles
            (apply_calls (check_rewards honor guild_roles member_roles) member_roles) = []"
proof -
  have names: "distinct (map snd REWARD_ROLES)" by (simp add: REWARD_ROLES_def)
  have a: "AddRoles r \<in> set (check_rewards honor guild_roles member_roles)
            \<longleftrightarrow> (\<exists>(t, n) \<in> set REWARD_ROLES. get_role guild_roles n = Some r \<and> t \<le> honor
                    \<and> \<not> role_in r member_roles)"
    unfolding check_rewards_def by (rule reward_calls_add)
  have b: "RemoveRoles r \<in> set (check_rewards honor guild_roles member_roles)
            \<longleftrightarrow> (\<exists>(t, n) \<in> set REWARD_ROLES. get_role guild_roles n = Some r \<and> honor < t
                    \<and> role_in r member_roles)"
    unfolding check_rewards_def by (rule reward_calls_remove)
  have c: "set (map role_id observed) = set (map role_id member_roles)
            \<longrightarrow> check_rewards honor guild_roles observed = check_rewards honor guild_roles member_roles"
    unfolding check_rewards_def by (rule impI) (rule reward_calls_cong)
  have d: "check_rewards honor guild_roles
            (apply_calls (check_rewards honor guild_roles member_roles) member_roles) = []"
    unfolding check_rewards_def by (rule reward_calls_idempotent[OF assms names])
  show ?thesis by (rule conjI[OF a conjI[OF b conjI[OF c d]]])
qed

theorem check_rewards_diff_idempotent_witness:
  "distinct (map role_id
      [\<lparr>role_id = 1, role_name = ''@everyone'', is_default = True, administrator = False\<rparr>,
       \<lparr>role_id = 10, role_name = ''VIP'', is_default = False, administrator = False\<rparr>,
       \<lparr>role_id = 11, role_name = ''Elite'', is_default = False, administrator = False\<rparr>])
   \<and> check_rewards 20000
      [\<lparr>role_id = 1, role_name = ''@everyone'', is_default = True, administrator = False\<rparr>,
       \<lparr>role_id = 10, role_name = ''VIP'', is_default = False, administrator = False\<rparr>,
       \<lparr>role_id = 11, role_name = ''Elite'', is_default = False, administrator = False\<rparr>]
      [\<lparr>role_id = 11, role_name = ''Elite'', is_default = False, administrator = False\<rparr>]
     = [AddRoles \<lparr>role_id = 10, role_name = ''VIP'', is_default = False, administrator = False\<rparr>,
        RemoveRoles \<lparr>role_id = 11, role_name = ''Elite'', is_default = False, administrator = False\<rparr>]
   \<and> check_rewards 20000
      [\<lparr>role_id = 1, role_name = ''@everyone'', is_default = True, administrator = False\<rparr>,
       \<lparr>role_id = 10, role_name = ''VIP'', is_default = False, administrator = False\<rparr>,
       \<lparr>role_id = 11, role_name = ''Elite'', is_default = False, administrator = False\<rparr>]
      (apply_calls
        [AddRoles \<lparr>role_id = 10, role_name = ''VIP'', is_default = False, administrator = False\<rparr>,
         RemoveRoles \<lparr>role_id = 11, role_name = ''Elite'', is_default = False, administrator = False\<rparr>]
        [\<lparr>role_id = 11, role_name = ''Elite'', is_default = False, administrator = False\<rparr>])
     = []"
proof -
  let ?g = "[\<lparr>role_id = 1, role_name = ''@everyone'', is_default = True, administrator = False\<rparr>,
       \<lparr>role_id = 10, role_name = ''VIP'', is_default = False, administrator = False\<rparr>,
       \<lparr>role_id = 11, role_name = ''Elite'', is_default = False, administrator = False\<rparr>]"
  let ?m = "[\<lparr>role_id = 11, role_name = ''Elite'', is_default = False, administrator = False\<rparr>]"
  have h: "distinct (map role_id ?g)" by simp
  have diff: "check_rewards 20000 ?g ?m
     = [AddRoles \<lparr>role_id = 10, role_name = ''VIP'', is_default = False, administrator = False\<rparr>,
        RemoveRoles \<lparr>role_id = 11, role_name = ''Elite'', is_default = False, administrator = False\<rparr>]"
    by (simp add: check_rewards_def REWARD_ROLES_def get_role_def role_in_def)
  from check_rewards_diff_idempotent [OF h, of _ 20000 ?m]
  have "check_rewards 20000 ?g (apply_calls (check_rewards 20000 ?g ?m) ?m) = []" by blast
  with h diff show ?thesis by simp
qed


section \<open>Stripping roles\<close>

lemma strip_roles_result:
  assumes "\<forall>r\<in>set rs. platform r \<noteq> HTTPException"
  shows "strip_roles platform rs calls held =
     Inr (calls @ filter (\<lambda>r. \<not> skipped r) rs,
          filter (\<lambda>x. role_id x \<notin> set (map role_id
             (filter (\<lambda>r. \<not> skipped r \<and> platform r = Removed) rs))) held)"
  using assms
proof (induction rs arbitrary: calls held)
  case Nil
  then show ?case by simp
next
  case (Cons r rs)
  then have IH: "\<And>calls held. strip_roles platform rs calls held =
     Inr (calls @ filter (\<lambda>r. \<not> skipped r) rs,
          filter (\<lambda>x. role_id x \<notin> set (map role_id
             (filter (\<lambda>r. \<not> skipped r \<and> platform r = Removed) rs))) held)"
    by simp
  show ?case
  proof (cases "skipped r")
    case True
    with IH show ?thesis by simp
  next
    case False
    show ?thesis
    proof (cases "platform r")
      case Removed
      with False IH show ?thesis by (simp add: conj_commute)
    next
      case Forbidden
      with False IH show ?thesis by simp
    next
      case HTTPException
      with Cons.prems show ?thesis by simp
    qed
  qed
qed

text \<open>
  C10. The stripping loop of \<open>update_member_title\<close> calls \<open>remove_roles\<close> for every role
  of the member except the default role, roles with the administrator permission and
  roles whose name in lower case contains \<open>mod\<close> or \<open>admin\<close>, whether or not the role
  has anything to do with ranks or rewards. When no call fails with an error other than
  \<open>Forbidden\<close>, the member is left with the skipped roles and the roles the platform
  refused to remove. A member with the roles @everyone, Moderator, Gamer and VIP loses
  Gamer and VIP.
\<close>

theorem remove_old_roles_strips_all_but_skipped:
  assumes "distinct (map role_id member_roles)"
    and "\<forall>r\<in>set member_roles. platform r \<noteq> HTTPException"
  shows "remove_old_roles platform member_roles =
     Inr (filter (\<lambda>r. \<not> skipped r) member_roles,
          filter (\<lambda>r. skipped r \<or> platform r = Forbidden) member_roles)"
proof -
  have "filter (\<lambda>x. role_id x \<notin> set (map role_id
             (filter (\<lambda>r. \<not> skipped r \<and> platform r = Removed) member_roles))) member_roles
      = filter (\<lambda>r. skipped r \<or> platform r = Forbidden) member_roles"
  proof (rule filter_cong[OF refl])
    fix x assume x: "x \<in> set member_roles"
    have inj: "inj_on role_id (set member_roles)" using assms(1) by (simp add: distinct_map)
    have "role_id x \<in> set (map role_id
             (filter (\<lambda>r. \<not> skipped r \<and> platform r = Removed) member_roles))
        \<longleftrightarrow> \<not> skipped x \<and> platform x = Removed"
    proof
      assume "role_id x \<in> set (map role_id
             (filter (\<lambda>r. \<not> skipped r \<and> platform r = Removed) member_roles))"
      then obtain y where y: "y \<in> set member_roles" "\<not> skipped y" "platform y = Removed"
        "role_id y = role_id x" by auto
      with inj x have "y = x" by (meson inj_onD)
      with y show "\<not> skipped x \<and> platform x = Removed" by simp
    next
      assume "\<not> skipped x \<and> platform x = Removed"
      with x have "x \<in> set (filter (\<lambda>r. \<not> skipped r \<and> platform r = Removed) member_roles)"
        by simp
      then show "role_id x \<in> set (map role_id
             (filter (\<lambda>r. \<not> skipped r \<and> platform r = Removed) member_roles))"
        unfolding set_map by (rule imageI)
    qed
    moreover have "platform x \<noteq> HTTPException" using assms(2) x by blast
    ultimately show "(role_id x \<notin> set (map role_id
             (filter (\<lambda>r. \<not> skipped r \<and> platform r = Removed) member_roles)))
        = (skipped x \<or> platform x = Forbidden)"
      by (cases "platform x") simp_all
  qed
  with strip_roles_result[OF assms(2), of "[]" member_roles] show ?thesis
    by (simp add: remove_old_roles_def)
qed


lemma skipped_examples: "skipped \<lparr>role_id = 1, role_name = ''@everyone'', is_default = True, administrator = False\<rparr>"
  "skipped \<lparr>role_id = 2, role_name = ''Moderator'', is_default = False, administrator = False\<rparr>"
  "\<not> skipped \<lparr>role_id = 3, role_name = ''Gamer'', is_default = False, administrator = False\<rparr>"
  "\<not> skipped \<lparr>role_id = 10, role_name = ''VIP'', is_default = False, administrator = False\<rparr>"
  by code_simp+


theorem remove_old_roles_strips_all_but_skipped_witness:
  "distinct (map role_id
      [\<lparr>role_id = 1, role_name = ''@everyone'', is_default = True, administrator = False\<rparr>,
       \<lparr>role_id = 2, role_name = ''Moderator'', is_default = False, administrator = False\<rparr>,
       \<lparr>role_id = 3, role_name = ''Gamer'', is_default = False, administrator = False\<rparr>,
       \<lparr>role_id = 10, role_name = ''VIP'', is_default = False, administrator = False\<rparr>])
   \<and> remove_old_roles (\<lambda>r. Removed)
      [\<lparr>role_id = 1, role_name = ''@everyone'', is_default = True, administrator = False\<rparr>,
       \<lparr>role_id = 2, role_name = ''Moderator'', is_default = False, administrator = False\<rparr>,
       \<lparr>role_id = 3, role_name = ''Gamer'', is_default = False, administrator = False\<rparr>,
       \<lparr>role_id = 10, role_name = ''VIP'', is_default = False, administrator = False\<rparr>]
     = Inr ([\<lparr>role_id = 3, role_name = ''Gamer'', is_default = False, administrator = False\<rparr>,
             \<lparr>role_id = 10, role_name = ''VIP'', is_default = False, administrator = False\<rparr>],
            [\<lparr>role_id = 1, role_name = ''@everyone'', is_default = True, administrator = False\<rparr>,
             \<lparr>role_id = 2, role_name = ''Moderator'', is_default = False, administrator = False\<rparr>])"
proof -
  let ?m = "[\<lparr>role_id = 1, role_name = ''@everyone'', is_default = True, administrator = False\<rparr>,
       \<lparr>role_id = 2, role_name = ''Moderator'', is_default = False, administrator = False\<rparr>,
       \<lparr>role_id = 3, role_name = ''Gamer'', is_default = False, administrator = False\<rparr>,
       \<lparr>role_id = 10, role_name = ''VIP'', is_default = False, administrator = False\<rparr>]"
  have h1: "distinct (map role_id ?m)" by simp
  have h2: "\<forall>r\<in>set ?m. (\<lambda>r. Removed) r \<noteq> HTTPException" by simp
  from remove_old_roles_strips_all_but_skipped [OF h1 h2] h1 show ?thesis by (simp add: skipped_examples)
qed

end
